theory Spec2Isabelle
  imports Main "HOL-Library.Multiset" "HOL-Library.AList"
begin

section \<open>Data model of \<open>kdenlive-project-parser.py\<close>\<close>

text \<open>
  Every time value of the script is a Python \<open>datetime\<close> obtained from \<open>strptime\<close>
  (date part 1900-01-01) or a \<open>timedelta\<close> between two of them. Both are modelled as a
  count of microseconds: a \<open>datetime\<close> is its distance from 1900-01-01T00:00:00, the
  value the script uses as track origin. The attributes that \<open>strptime\<close> reads from the
  project file are times of day and hence never negative; they are natural numbers.
  Integers here are unbounded, so the year range of \<open>datetime\<close> is not represented.
\<close>

type_synonym datetime = int
type_synonym timedelta = int

datatype error = IndexError | KeyError string | UnboundLocalError

text \<open>Class \<open>timeline_obj\<close>: one clip placed on a playlist's timeline.\<close>

record timeline_obj =
  chain_id :: string
  timeline_in :: datetime
  chain_in :: datetime
  chain_out :: datetime

text \<open>\<open>timeline_obj.__lt__\<close>\<close>

definition lt_timeline_obj :: "timeline_obj \<Rightarrow> timeline_obj \<Rightarrow> bool" where
  "lt_timeline_obj self other = (timeline_in self < timeline_in other)"

text \<open>\<open>timeline_obj.length\<close>\<close>

definition length_timeline_obj :: "timeline_obj \<Rightarrow> timedelta" where
  "length_timeline_obj self = chain_out self - chain_in self"

text \<open>
  The children of a \<open>playlist\<close> element, with the attributes the constructor reads
  already parsed: \<open>blank\<close> carries its \<open>length\<close>, \<open>entry\<close> its \<open>producer\<close>, \<open>in\<close> and
  \<open>out\<close>; every other tag falls through the \<open>match\<close> statement.
\<close>

datatype child = Blank nat | Entry string nat nat | OtherChild

record playlist =
  playlist_id :: string
  timeline :: "timeline_obj list"
  is_valid :: bool

section \<open>The \<open>bisect\<close> module\<close>

text \<open>
  The binary search shared by \<open>bisect_right\<close> and \<open>insort_right\<close>:
  \<^verbatim>\<open>
    while lo < hi:
        mid = (lo + hi) // 2
        if x < key(a[mid]): hi = mid
        else: lo = mid + 1
    return lo
  \<close>
  The test \<open>x < key(a[mid])\<close> is the parameter \<open>below\<close>.
\<close>

function bisect_loop :: "('a \<Rightarrow> bool) \<Rightarrow> 'a list \<Rightarrow> nat \<Rightarrow> nat \<Rightarrow> nat" where
  "bisect_loop below a lo hi =
     (if lo < hi then
        (let mid = (lo + hi) div 2 in
         if below (a ! mid) then bisect_loop below a lo mid
         else bisect_loop below a (mid + 1) hi)
      else lo)"
  by pat_completeness auto
termination
  by (relation "measure (\<lambda>(below, a, lo, hi). hi - lo)") auto

declare bisect_loop.simps [simp del]

text \<open>\<open>bisect_right(a, x, key=key)\<close>, as \<open>seek_chains\<close> calls it.\<close>

definition bisect_right_key :: "'a list \<Rightarrow> datetime \<Rightarrow> ('a \<Rightarrow> datetime) \<Rightarrow> nat" where
  "bisect_right_key a x key = bisect_loop (\<lambda>e. x < key e) a 0 (length a)"

text \<open>
  \<open>insort_right(a, x)\<close> without a key: the search compares with \<open>x < a[mid]\<close>, that is
  \<open>timeline_obj.__lt__\<close>, and \<open>a.insert(lo, x)\<close> puts \<open>x\<close> in front of position \<open>lo\<close>.
\<close>

definition bisect_right :: "timeline_obj list \<Rightarrow> timeline_obj \<Rightarrow> nat" where
  "bisect_right a x = bisect_loop (\<lambda>e. lt_timeline_obj x e) a 0 (length a)"

definition insort_right :: "timeline_obj list \<Rightarrow> timeline_obj \<Rightarrow> timeline_obj list" where
  "insort_right a x = (let lo = bisect_right a x in take lo a @ x # drop lo a)"

section \<open>Class \<open>playlist\<close>\<close>

definition startswith :: "string \<Rightarrow> string \<Rightarrow> bool" where
  "startswith s p = (take (length p) s = p)"

text \<open>
  The loop of \<open>playlist.__init__\<close> over the children, on the state
  \<open>(current_time, self.timeline, self.is_valid)\<close>.
\<close>

fun init_loop ::
  "child list \<Rightarrow> datetime \<times> timeline_obj list \<times> bool \<Rightarrow> datetime \<times> timeline_obj list \<times> bool"
where
  "init_loop [] st = st"
| "init_loop (Blank blank_time # cs) (current_time, tline, v) =
     init_loop cs (current_time + int blank_time, tline, v)"
| "init_loop (Entry cid c_in c_out # cs) (current_time, tline, v) =
     (if \<not> startswith cid ''chain'' then init_loop cs (current_time, tline, v)
      else
        (let new_entry = \<lparr>chain_id = cid, timeline_in = current_time,
                           chain_in = int c_in, chain_out = int c_out\<rparr>;
             entry_len = length_timeline_obj new_entry;
             delta = current_time + entry_len
         in init_loop cs (delta, insort_right tline new_entry, True)))"
| "init_loop (OtherChild # cs) st = init_loop cs st"

text \<open>\<open>playlist.__init__\<close>: the asset bin \<open>main_bin\<close> returns before the loop.\<close>

definition playlist_init :: "string \<Rightarrow> child list \<Rightarrow> playlist" where
  "playlist_init pid children =
     (if pid = ''main_bin'' then \<lparr>playlist_id = pid, timeline = [], is_valid = False\<rparr>
      else
        (case init_loop children (0, [], False) of
           (current_time, tline, v) \<Rightarrow> \<lparr>playlist_id = pid, timeline = tline, is_valid = v\<rparr>))"

text \<open>
  Python's \<open>a[i]\<close> for an integer index: a negative index counts from the end, an index
  outside the list raises \<open>IndexError\<close>.
\<close>

definition py_index :: "'a list \<Rightarrow> int \<Rightarrow> error + 'a" where
  "py_index a i =
     (let n = int (length a); j = (if i < 0 then n + i else i)
      in if 0 \<le> j \<and> j < n then Inr (a ! nat j) else Inl IndexError)"

text \<open>
  \<open>playlist.seek_chains\<close>. \<open>range(start_index + 1, len(self.timeline))\<close> starts at 0
  when \<open>start_index\<close> is \<open>-1\<close>.
\<close>

definition seek_chains :: "playlist \<Rightarrow> datetime \<Rightarrow> datetime \<Rightarrow> error + timeline_obj list" where
  "seek_chains self start end' =
     (let start_index = int (bisect_right_key (timeline self) start timeline_in) - 1 in
      case py_index (timeline self) start_index of
        Inl e \<Rightarrow> Inl e
      | Inr first \<Rightarrow>
          Inr (first #
               [timeline self ! i.
                  i \<leftarrow> [nat (start_index + 1) ..< length (timeline self)],
                  timeline_in (timeline self ! i) < end']))"

section \<open>The trim computation of the main block\<close>

text \<open>
  Lines 150 to 158, for one element \<open>t\<close> of the query result: the pair
  \<open>(chain_start, chain_end)\<close>, with \<open>length = end - start\<close>. The strings that
  \<open>strftime\<close> makes of the pair afterwards are not modelled.
\<close>

definition trim :: "timeline_obj \<Rightarrow> datetime \<Rightarrow> datetime \<Rightarrow> datetime \<times> datetime" where
  "trim t start end' =
     (let len = end' - start;
          start_offset = start - timeline_in t;
          chain_start = chain_in t + start_offset;
          chain_end = (if length_timeline_obj t < len then chain_out t else chain_start + len)
      in (chain_start, chain_end))"

section \<open>\<open>parse_kdenlive_project\<close>\<close>

text \<open>
  The elements the function looks at, with the attributes it reads: a \<open>chain\<close> has an
  \<open>id\<close> and children, of which a \<open>property\<close> carries its \<open>name\<close> and its text; a
  \<open>playlist\<close> has an \<open>id\<close> and children; a \<open>tractor\<close> has children, of which a
  \<open>track\<close> carries its \<open>producer\<close> and, when present, its \<open>hide\<close> attribute.
\<close>

datatype chain_child = Property string string | OtherProp

datatype track = Track string "string option" | OtherTrack

datatype element =
  Chain string "chain_child list" | Playlist string "child list" | Tractor "track list" | OtherElement

text \<open>
  The three dictionaries are association lists in insertion order; \<open>d[k] = v\<close> is
  \<open>AList.update\<close> (an existing key keeps its place), \<open>del d[k]\<close> is \<open>AList.delete\<close>.
  The variable \<open>chain_filename\<close> is local to the function and only assigned in the
  inner loop: while unassigned it is \<open>None\<close>, and reading it then raises
  \<open>UnboundLocalError\<close>.
\<close>

record walk_state =
  chain_filename :: "string option"
  chains :: "(string \<times> string) list"
  playlists :: "(string \<times> playlist) list"
  playlist_hide_status :: "(string \<times> string) list"

text \<open>The inner loop of the \<open>chain\<close> case, which stops at the first \<open>resource\<close> property.\<close>

fun chain_loop :: "chain_child list \<Rightarrow> string option \<Rightarrow> string option" where
  "chain_loop [] cf = cf"
| "chain_loop (Property name text # ps) cf =
     (if name = ''resource'' then Some text else chain_loop ps cf)"
| "chain_loop (OtherProp # ps) cf = chain_loop ps cf"

text \<open>The inner loop of the \<open>tractor\<close> case.\<close>

fun tractor_loop :: "track list \<Rightarrow> (string \<times> string) list \<Rightarrow> (string \<times> string) list" where
  "tractor_loop [] hs = hs"
| "tractor_loop (Track producer (Some status) # ps) hs =
     tractor_loop ps (AList.update producer status hs)"
| "tractor_loop (Track producer None # ps) hs = tractor_loop ps hs"
| "tractor_loop (OtherTrack # ps) hs = tractor_loop ps hs"

text \<open>The loop over the children of the root.\<close>

fun root_loop :: "element list \<Rightarrow> walk_state \<Rightarrow> error + walk_state" where
  "root_loop [] st = Inr st"
| "root_loop (Chain cid ps # es) st =
     (case chain_loop ps (chain_filename st) of
        None \<Rightarrow> Inl UnboundLocalError
      | Some fname \<Rightarrow>
          root_loop es (st\<lparr>chain_filename := Some fname,
                            chains := AList.update cid fname (chains st)\<rparr>))"
| "root_loop (Playlist pid children # es) st =
     (let new_playlist = playlist_init pid children in
      if is_valid new_playlist
      then root_loop es (st\<lparr>playlists := AList.update pid new_playlist (playlists st)\<rparr>)
      else root_loop es st)"
| "root_loop (Tractor ps # es) st =
     root_loop es (st\<lparr>playlist_hide_status := tractor_loop ps (playlist_hide_status st)\<rparr>)"
| "root_loop (OtherElement # es) st = root_loop es st"

text \<open>
  The loop that collects \<open>muted_playlists\<close>: \<open>playlist_hide_status[id]\<close> raises
  \<open>KeyError\<close> for an identifier that is not a key.
\<close>

fun muted_loop ::
  "string list \<Rightarrow> (string \<times> string) list \<Rightarrow> string list \<Rightarrow> error + string list"
where
  "muted_loop [] hs muted_playlists = Inr muted_playlists"
| "muted_loop (i # ids) hs muted_playlists =
     (case map_of hs i of
        None \<Rightarrow> Inl (KeyError i)
      | Some status \<Rightarrow>
          muted_loop ids hs
            (if status = ''both'' then muted_playlists @ [i] else muted_playlists))"

definition initial_state :: walk_state where
  "initial_state =
     \<lparr>chain_filename = None, chains = [], playlists = [], playlist_hide_status = []\<rparr>"

text \<open>
  \<open>parse_kdenlive_project\<close>, from the children of the document's root. The deleted
  identifiers are keys of \<open>playlists\<close>, each collected once, so \<open>del\<close> cannot fail.
\<close>

definition parse_kdenlive_project ::
  "element list \<Rightarrow> error + (string \<times> string) list \<times> (string \<times> playlist) list"
where
  "parse_kdenlive_project root =
     (case root_loop root initial_state of
        Inl e \<Rightarrow> Inl e
      | Inr st \<Rightarrow>
          (case muted_loop (map fst (playlists st)) (playlist_hide_status st) [] of
             Inl e \<Rightarrow> Inl e
           | Inr muted_playlists \<Rightarrow>
               Inr (chains st, fold AList.delete muted_playlists (playlists st))))"

section \<open>The timeline builder as the specification words it\<close>

text \<open>
  The fold of the specification, on the same events: a cursor that a gap advances by
  its length, and that a recognised clip reference advances by \<open>source_out - source_in\<close>
  after a placed clip was emitted at the cursor; a clip reference whose source is not
  of the media-clip class is skipped. \<open>spec_emitted\<close> lists the placed clips in the
  order of their emission, \<open>spec_cursor\<close> is the cursor after the last event.
\<close>

fun spec_emitted :: "datetime \<Rightarrow> child list \<Rightarrow> timeline_obj list" where
  "spec_emitted cursor [] = []"
| "spec_emitted cursor (Blank len # es) = spec_emitted (cursor + int len) es"
| "spec_emitted cursor (Entry source_id source_in source_out # es) =
     (if startswith source_id ''chain''
      then \<lparr>chain_id = source_id, timeline_in = cursor,
             chain_in = int source_in, chain_out = int source_out\<rparr>
           # spec_emitted (cursor + (int source_out - int source_in)) es
      else spec_emitted cursor es)"
| "spec_emitted cursor (OtherChild # es) = spec_emitted cursor es"

fun spec_cursor :: "datetime \<Rightarrow> child list \<Rightarrow> datetime" where
  "spec_cursor cursor [] = cursor"
| "spec_cursor cursor (Blank len # es) = spec_cursor (cursor + int len) es"
| "spec_cursor cursor (Entry source_id source_in source_out # es) =
     (if startswith source_id ''chain''
      then spec_cursor (cursor + (int source_out - int source_in)) es
      else spec_cursor cursor es)"
| "spec_cursor cursor (OtherChild # es) = spec_cursor cursor es"

text \<open>
  The trim instruction as the specification words it:
  \<open>source_trim_start = source_in + max(0, start - timeline_start)\<close>, and
  \<open>source_trim_end = source_in + (end - start)\<close> when the clip is at least as long as
  the window, else \<open>source_out\<close>.
\<close>

definition spec_trim :: "timeline_obj \<Rightarrow> datetime \<Rightarrow> datetime \<Rightarrow> datetime \<times> datetime" where
  "spec_trim clip start end' =
     (chain_in clip + max 0 (start - timeline_in clip),
      if end' - start \<le> length_timeline_obj clip then chain_in clip + (end' - start)
      else chain_out clip)"

section \<open>Binary search and sorted insertion\<close>

text \<open>
  A test is \<open>upward\<close> along a list when, once true at a position, it is true at every
  later one; \<open>x < key e\<close> is, along a list sorted by \<open>key\<close>.
\<close>

definition upward :: "('a \<Rightarrow> bool) \<Rightarrow> 'a list \<Rightarrow> bool" where
  "upward below a = (\<forall>i j. i \<le> j \<and> j < length a \<and> below (a ! i) \<longrightarrow> below (a ! j))"

lemma bisect_loop_bounds:
  "lo \<le> hi \<Longrightarrow> lo \<le> bisect_loop below a lo hi \<and> bisect_loop below a lo hi \<le> hi"
proof (induction below a lo hi rule: bisect_loop.induct)
  case (1 below a lo hi)
  show ?case
  proof (cases "lo < hi")
    case False
    with "1.prems" show ?thesis by (simp add: bisect_loop.simps)
  next
    case True
    define mid where "mid = (lo + hi) div 2"
    have m: "lo \<le> mid" "mid < hi" using True by (auto simp: mid_def)
    show ?thesis
    proof (cases "below (a ! mid)")
      case True
      with "1.IH"(1)[OF \<open>lo < hi\<close> mid_def[symmetric, THEN sym]] m
      show ?thesis using \<open>lo < hi\<close>
        by (subst (1 2) bisect_loop.simps) (simp add: mid_def Let_def)
    next
      case False
      with "1.IH"(2)[OF \<open>lo < hi\<close> mid_def[symmetric, THEN sym]] m
      show ?thesis using \<open>lo < hi\<close>
        by (subst (1 2) bisect_loop.simps) (simp add: mid_def Let_def)
    qed
  qed
qed

lemma bisect_loop_partition:
  "upward below a \<Longrightarrow> lo \<le> hi \<Longrightarrow> hi \<le> length a \<Longrightarrow>
   (\<forall>i<lo. \<not> below (a ! i)) \<Longrightarrow> (\<forall>i. hi \<le> i \<and> i < length a \<longrightarrow> below (a ! i)) \<Longrightarrow>
   (\<forall>i < bisect_loop below a lo hi. \<not> below (a ! i)) \<and>
   (\<forall>i. bisect_loop below a lo hi \<le> i \<and> i < length a \<longrightarrow> below (a ! i))"
proof (induction below a lo hi rule: bisect_loop.induct)
  case (1 below a lo hi)
  note mono = "1.prems"(1)
  note le = "1.prems"(2)
  note len = "1.prems"(3)
  note lower = "1.prems"(4)
  note upper = "1.prems"(5)
  show ?case
  proof (cases "lo < hi")
    case False
    then have "bisect_loop below a lo hi = lo"
      by (subst bisect_loop.simps) simp
    moreover from False le have "lo = hi" by simp
    ultimately show ?thesis using lower upper by simp
  next
    case True
    define mid where "mid = (lo + hi) div 2"
    have m: "lo \<le> mid" "mid < hi" using True by (simp_all add: mid_def)
    have midlen: "mid < length a" using m len by simp
    show ?thesis
    proof (cases "below (a ! mid)")
      case True
      have eq: "bisect_loop below a lo hi = bisect_loop below a lo mid"
        using \<open>lo < hi\<close> True by (subst bisect_loop.simps) (simp add: mid_def Let_def)
      have up: "\<forall>i. mid \<le> i \<and> i < length a \<longrightarrow> below (a ! i)"
      proof (intro allI impI)
        fix i assume "mid \<le> i \<and> i < length a"
        with mono True show "below (a ! i)" unfolding upward_def by blast
      qed
      have "mid \<le> length a" using midlen by simp
      from "1.IH"(1)[OF \<open>lo < hi\<close> mid_def True mono m(1) this lower up]
      show ?thesis unfolding eq .
    next
      case False
      have eq: "bisect_loop below a lo hi = bisect_loop below a (mid + 1) hi"
        using \<open>lo < hi\<close> False by (subst bisect_loop.simps) (simp add: mid_def Let_def)
      have low: "\<forall>i<mid + 1. \<not> below (a ! i)"
      proof (intro allI impI)
        fix i assume "i < mid + 1"
        then have "i \<le> mid" by simp
        with midlen mono False show "\<not> below (a ! i)" unfolding upward_def by blast
      qed
      have "mid + 1 \<le> hi" using m by simp
      from "1.IH"(2)[OF \<open>lo < hi\<close> mid_def False mono this len low upper]
      show ?thesis unfolding eq .
    qed
  qed
qed

lemma bisect_loop_take_drop:
  assumes "upward below a"
  defines "r \<equiv> bisect_loop below a 0 (length a)"
  shows "r \<le> length a" "\<forall>x \<in> set (take r a). \<not> below x" "\<forall>x \<in> set (drop r a). below x"
proof -
  show r: "r \<le> length a" using bisect_loop_bounds[of 0 "length a" below a] by (simp add: r_def)
  have p: "(\<forall>i < r. \<not> below (a ! i)) \<and> (\<forall>i. r \<le> i \<and> i < length a \<longrightarrow> below (a ! i))"
  proof -
    have e: "\<forall>i. length a \<le> i \<and> i < length a \<longrightarrow> below (a ! i)"
      using leD by blast
    have z: "\<forall>i<(0::nat). \<not> below (a ! i)" by simp
    show ?thesis
      unfolding r_def by (rule bisect_loop_partition[OF assms(1) le0 order_refl z e])
  qed
  show "\<forall>x \<in> set (take r a). \<not> below x"
  proof
    fix x assume "x \<in> set (take r a)"
    then obtain i where "i < length (take r a)" "take r a ! i = x"
      unfolding in_set_conv_nth by blast
    then have "i < r" "a ! i = x" by simp_all
    with p show "\<not> below x" by blast
  qed
  show "\<forall>x \<in> set (drop r a). below x"
  proof
    fix x assume "x \<in> set (drop r a)"
    then obtain i where i: "i < length (drop r a)" "drop r a ! i = x"
      unfolding in_set_conv_nth by blast
    then have "r + i < length a" "a ! (r + i) = x" using r by simp_all
    moreover have "r \<le> r + i" by simp
    ultimately show "below x" using p by blast
  qed
qed

lemma upward_sorted:
  "sorted (map key a) \<Longrightarrow> upward (\<lambda>e. (x::int) < key e) a"
proof -
  assume s: "sorted (map key a)"
  have "x < key (a ! j)" if "i \<le> j" "j < length a" "x < key (a ! i)" for i j
  proof -
    have "map key a ! i \<le> map key a ! j"
      using s that by (intro sorted_nth_mono) simp_all
    then show ?thesis using that by simp
  qed
  then show ?thesis unfolding upward_def by blast
qed

lemma bisect_right_split:
  assumes "sorted (map timeline_in a)"
  shows "bisect_right a x \<le> length a"
    and "\<forall>y \<in> set (take (bisect_right a x) a). timeline_in y \<le> timeline_in x"
    and "\<forall>y \<in> set (drop (bisect_right a x) a). timeline_in x < timeline_in y"
proof -
  have u: "upward (\<lambda>e. timeline_in x < timeline_in e) a"
    using assms by (rule upward_sorted)
  have eq: "bisect_right a x = bisect_loop (\<lambda>e. timeline_in x < timeline_in e) a 0 (length a)"
    unfolding bisect_right_def lt_timeline_obj_def ..
  show "bisect_right a x \<le> length a"
    unfolding eq by (rule bisect_loop_take_drop(1)[OF u])
  have "\<forall>y \<in> set (take (bisect_right a x) a). \<not> timeline_in x < timeline_in y"
    unfolding eq by (rule bisect_loop_take_drop(2)[OF u])
  then show "\<forall>y \<in> set (take (bisect_right a x) a). timeline_in y \<le> timeline_in x"
    unfolding not_less .
  show "\<forall>y \<in> set (drop (bisect_right a x) a). timeline_in x < timeline_in y"
    unfolding eq by (rule bisect_loop_take_drop(3)[OF u])
qed

lemma bisect_right_key_split:
  assumes "sorted (map timeline_in a)"
  shows "bisect_right_key a x timeline_in \<le> length a"
    and "\<forall>y \<in> set (take (bisect_right_key a x timeline_in) a). timeline_in y \<le> x"
    and "\<forall>y \<in> set (drop (bisect_right_key a x timeline_in) a). x < timeline_in y"
proof -
  have u: "upward (\<lambda>e. x < timeline_in e) a"
    using assms by (rule upward_sorted)
  show "bisect_right_key a x timeline_in \<le> length a"
    unfolding bisect_right_key_def by (rule bisect_loop_take_drop(1)[OF u])
  have "\<forall>y \<in> set (take (bisect_right_key a x timeline_in) a). \<not> x < timeline_in y"
    unfolding bisect_right_key_def by (rule bisect_loop_take_drop(2)[OF u])
  then show "\<forall>y \<in> set (take (bisect_right_key a x timeline_in) a). timeline_in y \<le> x"
    unfolding not_less .
  show "\<forall>y \<in> set (drop (bisect_right_key a x timeline_in) a). x < timeline_in y"
    unfolding bisect_right_key_def by (rule bisect_loop_take_drop(3)[OF u])
qed

lemma bisect_right_key_le: "bisect_right_key a x key \<le> length a"
  unfolding bisect_right_key_def using bisect_loop_bounds[of 0 "length a"] by simp

lemma mset_insort_right: "mset (insort_right a x) = add_mset x (mset a)"
proof -
  define r where "r = bisect_right a x"
  have "mset a = mset (take r a @ drop r a)" by simp
  also have "\<dots> = mset (take r a) + mset (drop r a)" by (rule mset_append)
  finally have "mset (take r a) + mset (drop r a) = mset a" by simp
  then have "mset (take r a @ x # drop r a) = add_mset x (mset a)" by simp
  then show ?thesis unfolding insort_right_def Let_def r_def .
qed

lemma sorted_insort_right:
  assumes "sorted (map timeline_in a)"
  shows "sorted (map timeline_in (insort_right a x))"
proof -
  define r where "r = bisect_right a x"
  note s = bisect_right_split[OF assms, of x, folded r_def]
  have "sorted (map timeline_in (take r a @ drop r a))" using assms by simp
  then have st: "sorted (map timeline_in (take r a))" and sd: "sorted (map timeline_in (drop r a))"
    by (simp_all only: map_append sorted_append)
  have "sorted (map timeline_in (take r a) @ timeline_in x # map timeline_in (drop r a))"
  proof -
    have "timeline_in y \<le> timeline_in z"
      if "y \<in> set (take r a)" "z \<in> set (drop r a)" for y z
    proof -
      have "timeline_in y \<le> timeline_in x" using s(2) that(1) by blast
      moreover have "timeline_in x < timeline_in z" using s(3) that(2) by blast
      ultimately show ?thesis by simp
    qed
    moreover have "timeline_in x \<le> timeline_in z" if "z \<in> set (drop r a)" for z
      using s(3) that by (simp add: less_imp_le)
    ultimately show ?thesis
      using st sd s(2) by (simp add: sorted_append)
  qed
  then show ?thesis unfolding insort_right_def Let_def r_def[symmetric] by simp
qed

lemma filter_insort_right:
  assumes "sorted (map timeline_in a)"
  shows "filter (\<lambda>y. timeline_in y = k) (insort_right a x) =
         filter (\<lambda>y. timeline_in y = k) (a @ [x])"
proof -
  define r where "r = bisect_right a x"
  note s = bisect_right_split[OF assms, of x, folded r_def]
  have a: "a = take r a @ drop r a" by simp
  show ?thesis
  proof (cases "timeline_in x = k")
    case True
    have "filter (\<lambda>y. timeline_in y = k) (drop r a) = []"
      using s(3) True by (auto simp: filter_empty_conv)
    then have "filter (\<lambda>y. timeline_in y = k) a = filter (\<lambda>y. timeline_in y = k) (take r a)"
      by (subst a) (simp only: filter_append append_Nil2)
    then show ?thesis using True \<open>filter (\<lambda>y. timeline_in y = k) (drop r a) = []\<close>
      unfolding insort_right_def Let_def r_def[symmetric] by simp
  next
    case False
    have "filter (\<lambda>y. timeline_in y = k) a =
          filter (\<lambda>y. timeline_in y = k) (take r a) @ filter (\<lambda>y. timeline_in y = k) (drop r a)"
      by (subst a) (simp only: filter_append)
    then show ?thesis using False unfolding insort_right_def Let_def r_def[symmetric] by simp
  qed
qed

lemma insort_right_append:
  assumes "sorted (map timeline_in a)" and "\<forall>y \<in> set a. timeline_in y \<le> timeline_in x"
  shows "insort_right a x = a @ [x]"
proof -
  define r where "r = bisect_right a x"
  note s = bisect_right_split[OF assms(1), of x, folded r_def]
  have "drop r a = []"
  proof (rule ccontr)
    assume "drop r a \<noteq> []"
    then obtain y where y: "y \<in> set (drop r a)" by (cases "drop r a") auto
    then have "y \<in> set a" by (rule in_set_dropD)
    then have "timeline_in y \<le> timeline_in x" using assms(2) by blast
    moreover have "timeline_in x < timeline_in y" using s(3) y by blast
    ultimately show False by simp
  qed
  then have "length a \<le> r" by simp
  then have "take r a = a" by simp
  then show ?thesis using \<open>drop r a = []\<close>
    unfolding insort_right_def Let_def r_def[symmetric] by simp
qed

lemma insort_right_Nil: "insort_right [] x = [x]"
  by (rule insort_right_append[of "[]" x, simplified])

section \<open>The constructor's loop and the specification's fold\<close>

lemma init_loop_spec:
  "init_loop cs (ct, tline, v) =
     (spec_cursor ct cs,
      fold (\<lambda>x a. insort_right a x) (spec_emitted ct cs) tline,
      v \<or> spec_emitted ct cs \<noteq> [])"
proof (induction cs arbitrary: ct tline v)
  case Nil
  show ?case by simp
next
  case (Cons c cs)
  show ?case
  proof (cases c)
    case (Blank n)
    then show ?thesis using Cons.IH by simp
  next
    case (Entry cid i out)
    then show ?thesis using Cons.IH
      by (simp add: Let_def length_timeline_obj_def)
  next
    case OtherChild
    then show ?thesis using Cons.IH by simp
  qed
qed

lemma init_loop_append: "init_loop (xs @ ys) st = init_loop ys (init_loop xs st)"
  by (induction xs st rule: init_loop.induct) (simp_all add: Let_def)

lemma fold_insort_right:
  "sorted (map timeline_in tline) \<Longrightarrow>
   sorted (map timeline_in (fold (\<lambda>x a. insort_right a x) es tline)) \<and>
   mset (fold (\<lambda>x a. insort_right a x) es tline) = mset tline + mset es \<and>
   (\<forall>k. filter (\<lambda>y. timeline_in y = k) (fold (\<lambda>x a. insort_right a x) es tline) =
        filter (\<lambda>y. timeline_in y = k) (tline @ es))"
proof (induction es arbitrary: tline)
  case Nil
  then show ?case by simp
next
  case (Cons e es)
  have s: "sorted (map timeline_in (insort_right tline e))"
    using Cons.prems by (rule sorted_insort_right)
  note ih = Cons.IH[OF s]
  have f: "filter (\<lambda>y. timeline_in y = k) (insort_right tline e @ es) =
           filter (\<lambda>y. timeline_in y = k) (tline @ e # es)" for k
    using filter_insort_right[OF Cons.prems, of k e] by simp
  show ?case using ih f by (simp add: mset_insort_right)
qed

lemma fold_insort_right_sort_key:
  "fold (\<lambda>x a. insort_right a x) es [] = sort_key timeline_in es"
proof -
  let ?ys = "fold (\<lambda>x a. insort_right a x) es []"
  have p: "sorted (map timeline_in ?ys)" "mset ?ys = mset es"
    "\<And>k. filter (\<lambda>y. timeline_in y = k) ?ys = filter (\<lambda>y. timeline_in y = k) es"
    using fold_insort_right[of "[]" es] by simp_all
  have "sort_key timeline_in es = ?ys"
  proof (rule properties_for_sort_key)
    show "mset ?ys = mset es" by (rule p(2))
    show "sorted (map timeline_in ?ys)" by (rule p(1))
    fix k assume "k \<in> set ?ys"
    show "filter (\<lambda>x. timeline_in k = timeline_in x) ?ys =
          filter (\<lambda>x. timeline_in k = timeline_in x) es"
      using p(3)[of "timeline_in k"] by (simp add: eq_commute)
  qed
  then show ?thesis by simp
qed

lemma timeline_playlist_init:
  "timeline (playlist_init pid evs) =
     (if pid = ''main_bin'' then [] else sort_key timeline_in (spec_emitted 0 evs))"
  by (simp add: playlist_init_def init_loop_spec fold_insort_right_sort_key)

lemma is_valid_playlist_init:
  "is_valid (playlist_init pid evs) = (pid \<noteq> ''main_bin'' \<and> spec_emitted 0 evs \<noteq> [])"
  by (simp add: playlist_init_def init_loop_spec)

lemma sorted_timeline_playlist_init:
  "sorted (map timeline_in (timeline (playlist_init pid evs)))"
  by (simp add: timeline_playlist_init)

lemma spec_emitted_chain:
  "(\<forall>cid i out. Entry cid i out \<in> set evs \<and> startswith cid ''chain'' \<longrightarrow> i \<le> out) \<Longrightarrow>
   sorted_wrt (\<lambda>a b. timeline_in a + length_timeline_obj a \<le> timeline_in b) (spec_emitted c evs) \<and>
   (\<forall>t \<in> set (spec_emitted c evs). c \<le> timeline_in t \<and> 0 \<le> length_timeline_obj t)"
proof (induction evs arbitrary: c)
  case Nil
  show ?case by simp
next
  case (Cons e evs)
  have rest: "\<forall>cid i out. Entry cid i out \<in> set evs \<and> startswith cid ''chain'' \<longrightarrow> i \<le> out"
    using Cons.prems by auto
  note ih = Cons.IH[OF rest]
  show ?case
  proof (cases e)
    case (Blank n)
    have "\<forall>t \<in> set (spec_emitted (c + int n) evs). c \<le> timeline_in t \<and> 0 \<le> length_timeline_obj t"
      using ih[of "c + int n"] by fastforce
    then show ?thesis using Blank ih[of "c + int n"] by simp
  next
    case OtherChild
    then show ?thesis using ih[of c] by simp
  next
    case (Entry cid i out)
    show ?thesis
    proof (cases "startswith cid ''chain''")
      case False
      then show ?thesis using Entry ih[of c] by simp
    next
      case True
      then have io: "i \<le> out" using Cons.prems Entry by auto
      let ?c' = "c + (int out - int i)"
      have le: "c \<le> ?c'" using io by simp
      have r: "\<forall>t \<in> set (spec_emitted ?c' evs). ?c' \<le> timeline_in t \<and> 0 \<le> length_timeline_obj t"
        using ih[of ?c'] by blast
      then have r': "\<forall>t \<in> set (spec_emitted ?c' evs). c \<le> timeline_in t \<and> 0 \<le> length_timeline_obj t"
        using le by fastforce
      show ?thesis using Entry True io r r' ih[of ?c']
        by (simp add: length_timeline_obj_def)
    qed
  qed
qed

lemma spec_emitted_positive:
  "(\<forall>cid i out. Entry cid i out \<in> set evs \<and> startswith cid ''chain'' \<longrightarrow> i < out) \<Longrightarrow>
   \<forall>t \<in> set (spec_emitted c evs). 0 < length_timeline_obj t"
proof (induction evs arbitrary: c)
  case Nil
  show ?case by simp
next
  case (Cons e evs)
  have rest: "\<forall>cid i out. Entry cid i out \<in> set evs \<and> startswith cid ''chain'' \<longrightarrow> i < out"
    using Cons.prems by auto
  note ih = Cons.IH[OF rest]
  show ?case
  proof (cases e)
    case (Entry cid i out)
    have "startswith cid ''chain'' \<longrightarrow> i < out" using Cons.prems Entry by auto
    then show ?thesis using Entry ih by (simp add: length_timeline_obj_def)
  qed (use ih in simp_all)
qed

lemma spec_emitted_sorted:
  assumes "\<forall>cid i out. Entry cid i out \<in> set evs \<and> startswith cid ''chain'' \<longrightarrow> i \<le> out"
  shows "sorted (map timeline_in (spec_emitted c evs))"
proof -
  note ch = spec_emitted_chain[OF assms, of c]
  have "sorted_wrt (\<lambda>a b. timeline_in a \<le> timeline_in b) (spec_emitted c evs)"
  proof (rule sorted_wrt_mono_rel[OF _ conjunct1[OF ch]])
    fix a b assume "a \<in> set (spec_emitted c evs)"
      and "timeline_in a + length_timeline_obj a \<le> timeline_in b"
    moreover from this ch have "0 \<le> length_timeline_obj a" by blast
    ultimately show "timeline_in a \<le> timeline_in b" by simp
  qed
  then show ?thesis by (simp add: sorted_map)
qed

lemma spec_emitted_empty_iff:
  "spec_emitted c evs \<noteq> [] \<longleftrightarrow>
   (\<exists>cid i out. Entry cid i out \<in> set evs \<and> startswith cid ''chain'')"
proof (induction evs arbitrary: c)
  case Nil
  show ?case by simp
next
  case (Cons e evs)
  show ?case
  proof (cases e)
    case (Entry cid i out)
    then show ?thesis using Cons.IH[of c] by auto
  qed (use Cons.IH in auto)
qed

lemma is_valid_iff:
  "is_valid (playlist_init pid evs) \<longleftrightarrow>
   pid \<noteq> ''main_bin'' \<and> (\<exists>cid i out. Entry cid i out \<in> set evs \<and> startswith cid ''chain'')"
  unfolding is_valid_playlist_init spec_emitted_empty_iff ..

section \<open>The query on a sorted timeline\<close>

lemma map_nth_upt_drop: "map ((!) a) [n..<length a] = drop n a"
  by (rule nth_equalityI) simp_all

lemma comprehension_filter:
  "[f i. i \<leftarrow> xs, P (f i)] = filter P (map f xs)"
  by (induction xs) simp_all

lemma scan_forward:
  "[a ! i. i \<leftarrow> [n..<length a], P (a ! i)] = filter P (drop n a)"
  by (simp only: comprehension_filter map_nth_upt_drop)

lemma py_index_last: "a \<noteq> [] \<Longrightarrow> py_index a (- 1) = Inr (last a)"
  by (simp add: py_index_def Let_def last_conv_nth nat_diff_distrib')

lemma py_index_nat: "i < length a \<Longrightarrow> py_index a (int i) = Inr (a ! i)"
  by (simp add: py_index_def Let_def)

lemma py_index_Nil: "py_index [] i = Inl IndexError"
  by (simp add: py_index_def Let_def)

lemma seek_chains_cases:
  "seek_chains p s e =
     (if timeline p = [] then Inl IndexError
      else if bisect_right_key (timeline p) s timeline_in = 0
        then Inr (last (timeline p) # filter (\<lambda>t. timeline_in t < e) (timeline p))
      else Inr (timeline p ! (bisect_right_key (timeline p) s timeline_in - 1) #
                filter (\<lambda>t. timeline_in t < e)
                  (drop (bisect_right_key (timeline p) s timeline_in) (timeline p))))"
proof -
  define k where "k = bisect_right_key (timeline p) s timeline_in"
  have kl: "k \<le> length (timeline p)" unfolding k_def by (rule bisect_right_key_le)
  have sf: "[timeline p ! i. i \<leftarrow> [n..<length (timeline p)], timeline_in (timeline p ! i) < e] =
            filter (\<lambda>t. timeline_in t < e) (drop n (timeline p))" for n
    by (rule scan_forward[where a = "timeline p" and n = n and P = "\<lambda>t. timeline_in t < e"])
  have sc: "seek_chains p s e =
     (case py_index (timeline p) (int k - 1) of
        Inl err \<Rightarrow> Inl err
      | Inr first \<Rightarrow> Inr (first # filter (\<lambda>t. timeline_in t < e) (drop (nat (int k - 1 + 1)) (timeline p))))"
    unfolding seek_chains_def Let_def k_def sf ..
  show ?thesis
  proof (cases "timeline p = []")
    case True
    then show ?thesis unfolding sc by (simp add: py_index_Nil)
  next
    case False
    show ?thesis
    proof (cases "k = 0")
      case True
      then show ?thesis using False py_index_last[OF False] unfolding sc k_def[symmetric] by simp
    next
      case k: False
      then have "int k - 1 = int (k - 1)" by simp
      moreover have "k - 1 < length (timeline p)" using k kl by simp
      ultimately have "py_index (timeline p) (int k - 1) = Inr (timeline p ! (k - 1))"
        using py_index_nat by metis
      then show ?thesis using False k unfolding sc k_def[symmetric] by simp
    qed
  qed
qed

lemma seek_chains_rightmost:
  assumes srt: "sorted (map timeline_in (timeline p))"
    and ex: "\<exists>t \<in> set (timeline p). timeline_in t \<le> s"
  shows "\<exists>k < length (timeline p).
           timeline_in (timeline p ! k) \<le> s \<and>
           (\<forall>j. k < j \<and> j < length (timeline p) \<longrightarrow> s < timeline_in (timeline p ! j)) \<and>
           seek_chains p s e =
             Inr (timeline p ! k #
                  filter (\<lambda>t. timeline_in t < e) (drop (Suc k) (timeline p)))"
proof -
  define r where "r = bisect_right_key (timeline p) s timeline_in"
  note sp = bisect_right_key_split[OF srt, of s, folded r_def]
  have ne: "timeline p \<noteq> []" using ex by auto
  have r0: "r \<noteq> 0"
  proof
    assume "r = 0"
    then have "\<forall>y \<in> set (timeline p). s < timeline_in y" using sp(3) by simp
    then show False using ex by fastforce
  qed
  then have k: "r - 1 < length (timeline p)" "Suc (r - 1) = r" using sp(1) by simp_all
  have "timeline p ! (r - 1) = take r (timeline p) ! (r - 1)" using r0 by simp
  moreover have "r - 1 < length (take r (timeline p))" using r0 sp(1) by simp
  ultimately have "timeline p ! (r - 1) \<in> set (take r (timeline p))"
    by (metis nth_mem)
  then have a: "timeline_in (timeline p ! (r - 1)) \<le> s" using sp(2) by blast
  have b: "s < timeline_in (timeline p ! j)" if "r - 1 < j" "j < length (timeline p)" for j
  proof -
    have "r \<le> j" using that(1) by simp
    then have "timeline p ! j = drop r (timeline p) ! (j - r)" using that(2) by simp
    moreover have "j - r < length (drop r (timeline p))" using \<open>r \<le> j\<close> that(2) by simp
    ultimately have "timeline p ! j \<in> set (drop r (timeline p))" by (metis nth_mem)
    then show ?thesis using sp(3) by blast
  qed
  have c: "seek_chains p s e =
           Inr (timeline p ! (r - 1) #
                filter (\<lambda>t. timeline_in t < e) (drop (Suc (r - 1)) (timeline p)))"
    using ne r0 unfolding k(2) r_def by (simp add: seek_chains_cases)
  show ?thesis using k(1) a b c by blast
qed

lemma seek_chains_wraparound:
  assumes srt: "sorted (map timeline_in (timeline p))"
    and ne: "timeline p \<noteq> []"
    and before: "s < timeline_in (hd (timeline p))"
  shows "seek_chains p s e =
           Inr (last (timeline p) # filter (\<lambda>t. timeline_in t < e) (timeline p))"
proof -
  define r where "r = bisect_right_key (timeline p) s timeline_in"
  note sp = bisect_right_key_split[OF srt, of s, folded r_def]
  have "r = 0"
  proof (rule ccontr)
    assume "r \<noteq> 0"
    then have "hd (timeline p) \<in> set (take r (timeline p))"
      using ne by (cases "timeline p"; cases r) simp_all
    then have "timeline_in (hd (timeline p)) \<le> s" using sp(2) by blast
    then show False using before by simp
  qed
  then show ?thesis using ne unfolding r_def by (simp add: seek_chains_cases)
qed

lemma sorted_le_last:
  assumes srt: "sorted (map timeline_in a)" and t: "t \<in> set a"
  shows "timeline_in t \<le> timeline_in (last a)"
proof -
  have ne: "a \<noteq> []" using t by auto
  obtain i where i: "i < length a" and ai: "a ! i = t"
    using t unfolding in_set_conv_nth by blast
  have j: "length a - 1 < length (map timeline_in a)" using ne by simp
  have "i \<le> length a - 1" using i by simp
  with srt have "map timeline_in a ! i \<le> map timeline_in a ! (length a - 1)"
    using j by (rule sorted_nth_mono)
  moreover have "map timeline_in a ! i = timeline_in t" using i ai by simp
  moreover have "map timeline_in a ! (length a - 1) = timeline_in (last a)"
    using ne by (simp add: last_conv_nth)
  ultimately show ?thesis by simp
qed

lemma filter_all_below_last:
  assumes srt: "sorted (map timeline_in a)" and l: "timeline_in (last a) < e"
  shows "filter (\<lambda>t. timeline_in t < e) a = a"
proof -
  have "\<forall>t \<in> set a. timeline_in t < e"
  proof
    fix t assume "t \<in> set a"
    then have "timeline_in t \<le> timeline_in (last a)" using srt by (rule sorted_le_last[rotated])
    then show "timeline_in t < e" using l by simp
  qed
  then show ?thesis unfolding filter_id_conv .
qed

lemma seek_chains_sorted:
  assumes srt: "sorted (map timeline_in (timeline p))"
  shows "seek_chains p s e =
     (if timeline p = [] then Inl IndexError
      else if filter (\<lambda>t. timeline_in t \<le> s) (timeline p) = []
        then Inr (last (timeline p) # filter (\<lambda>t. timeline_in t < e) (timeline p))
      else Inr (last (filter (\<lambda>t. timeline_in t \<le> s) (timeline p)) #
                filter (\<lambda>t. timeline_in t < e) (filter (\<lambda>t. s < timeline_in t) (timeline p))))"
proof -
  define r where "r = bisect_right_key (timeline p) s timeline_in"
  note sp = bisect_right_key_split[OF srt, of s, folded r_def]
  have t: "filter (\<lambda>t. timeline_in t \<le> s) (take r (timeline p)) = take r (timeline p)"
    unfolding filter_id_conv using sp(2) .
  have d: "filter (\<lambda>t. timeline_in t \<le> s) (drop r (timeline p)) = []"
    unfolding filter_empty_conv using sp(3) by (simp add: not_le)
  have t': "filter (\<lambda>t. s < timeline_in t) (take r (timeline p)) = []"
    unfolding filter_empty_conv using sp(2) by (simp add: not_less)
  have d': "filter (\<lambda>t. s < timeline_in t) (drop r (timeline p)) = drop r (timeline p)"
    unfolding filter_id_conv using sp(3) .
  have "filter (\<lambda>t. timeline_in t \<le> s) (take r (timeline p) @ drop r (timeline p)) = take r (timeline p)"
    unfolding filter_append t d by simp
  then have le: "filter (\<lambda>t. timeline_in t \<le> s) (timeline p) = take r (timeline p)" by simp
  have "filter (\<lambda>t. s < timeline_in t) (take r (timeline p) @ drop r (timeline p)) = drop r (timeline p)"
    unfolding filter_append t' d' by simp
  then have gt: "filter (\<lambda>t. s < timeline_in t) (timeline p) = drop r (timeline p)" by simp
  show ?thesis
  proof (cases "timeline p = []")
    case True
    then show ?thesis by (simp add: seek_chains_cases)
  next
    case ne: False
    show ?thesis
    proof (cases "r = 0")
      case True
      then show ?thesis using ne unfolding le gt
        by (simp add: seek_chains_cases r_def[symmetric])
    next
      case False
      then have "take r (timeline p) \<noteq> []" using ne by simp
      moreover have "last (take r (timeline p)) = timeline p ! (r - 1)"
      proof -
        have l: "length (take r (timeline p)) = r" using sp(1) by simp
        have "last (take r (timeline p)) = take r (timeline p) ! (r - 1)"
          using \<open>take r (timeline p) \<noteq> []\<close> l by (simp add: last_conv_nth)
        also have "\<dots> = timeline p ! (r - 1)" using False by simp
        finally show ?thesis .
      qed
      ultimately show ?thesis using ne False unfolding le gt
        by (simp add: seek_chains_cases r_def[symmetric])
    qed
  qed
qed

section \<open>The walk over a project and the removal of muted playlists\<close>

lemma set_update_subset: "set (AList.update k v al) \<subseteq> insert (k, v) (set al)"
  by (induction al) auto

lemma set_fold_delete_subset: "set (fold AList.delete ms al) \<subseteq> set al"
proof (induction ms arbitrary: al)
  case Nil
  show ?case by simp
next
  case (Cons m ms)
  have "set (fold AList.delete ms (AList.delete m al)) \<subseteq> set (AList.delete m al)"
    by (rule Cons.IH)
  also have "\<dots> \<subseteq> set al" by (auto simp: AList.delete_eq)
  finally show ?case by simp
qed

lemma map_of_fold_delete:
  "map_of (fold AList.delete ms al) k = (if k \<in> set ms then None else map_of al k)"
proof (induction ms arbitrary: al)
  case Nil
  show ?case by simp
next
  case (Cons m ms)
  show ?case using Cons.IH[of "AList.delete m al"] by (simp add: AList.delete_conv)
qed

lemma tractor_loop_declared:
  "map_of (tractor_loop ps hs) k = Some h \<Longrightarrow>
   map_of hs k = Some h \<or> Track k (Some h) \<in> set ps"
proof (induction ps hs rule: tractor_loop.induct)
  case (2 producer status ps hs)
  have "map_of (tractor_loop ps (AList.update producer status hs)) k = Some h"
    using "2.prems" by simp
  from "2.IH"[OF this] show ?case
    by (auto simp: AList.update_conv split: if_splits)
qed auto

lemma root_loop_playlists:
  "root_loop root st = Inr st' \<Longrightarrow> (k, p) \<in> set (playlists st') \<Longrightarrow>
   (k, p) \<in> set (playlists st) \<or>
   (\<exists>evs. Playlist k evs \<in> set root \<and> p = playlist_init k evs \<and> is_valid p)"
proof (induction root st rule: root_loop.induct)
  case (1 st)
  then show ?case by simp
next
  case (2 cid ps es st)
  from "2.prems"(1) obtain fname where f: "chain_loop ps (chain_filename st) = Some fname"
    by (auto split: option.splits)
  let ?st = "st\<lparr>chain_filename := Some fname, chains := AList.update cid fname (chains st)\<rparr>"
  have "root_loop es ?st = Inr st'" using "2.prems"(1) f by simp
  from "2.IH"[OF f this "2.prems"(2)] show ?case by auto
next
  case (3 pid children es st)
  let ?np = "playlist_init pid children"
  show ?case
  proof (cases "is_valid ?np")
    case True
    let ?st = "st\<lparr>playlists := AList.update pid ?np (playlists st)\<rparr>"
    have "root_loop es ?st = Inr st'" using "3.prems"(1) True by (simp add: Let_def)
    from "3.IH"(1)[OF refl True this "3.prems"(2)]
    have "(k, p) \<in> set (AList.update pid ?np (playlists st)) \<or>
      (\<exists>evs. Playlist k evs \<in> set es \<and> p = playlist_init k evs \<and> is_valid p)" by simp
    then show ?thesis using set_update_subset[of pid ?np "playlists st"] True by auto
  next
    case False
    have "root_loop es st = Inr st'" using "3.prems"(1) False by (simp add: Let_def)
    from "3.IH"(2)[OF refl False this "3.prems"(2)] show ?thesis by auto
  qed
next
  case (4 ps es st)
  let ?st = "st\<lparr>playlist_hide_status := tractor_loop ps (playlist_hide_status st)\<rparr>"
  have "root_loop es ?st = Inr st'" using "4.prems"(1) by simp
  from "4.IH"[OF this "4.prems"(2)] show ?case by auto
next
  case (5 es st)
  have "root_loop es st = Inr st'" using "5.prems"(1) by simp
  from "5.IH"[OF this "5.prems"(2)] show ?case by auto
qed

lemma root_loop_keys_mono:
  "root_loop root st = Inr st' \<Longrightarrow> k \<in> fst ` set (playlists st) \<Longrightarrow>
   k \<in> fst ` set (playlists st')"
proof (induction root st rule: root_loop.induct)
  case (1 st)
  then show ?case by simp
next
  case (2 cid ps es st)
  from "2.prems"(1) obtain fname where f: "chain_loop ps (chain_filename st) = Some fname"
    by (auto split: option.splits)
  let ?st = "st\<lparr>chain_filename := Some fname, chains := AList.update cid fname (chains st)\<rparr>"
  have "root_loop es ?st = Inr st'" using "2.prems"(1) f by simp
  from "2.IH"[OF f this] "2.prems"(2) show ?case by simp
next
  case (3 pid children es st)
  let ?np = "playlist_init pid children"
  show ?case
  proof (cases "is_valid ?np")
    case True
    let ?st = "st\<lparr>playlists := AList.update pid ?np (playlists st)\<rparr>"
    have r: "root_loop es ?st = Inr st'" using "3.prems"(1) True by (simp add: Let_def)
    have "k \<in> fst ` set (playlists ?st)" using "3.prems"(2) by (simp add: AList.dom_update)
    from "3.IH"(1)[OF refl True r this] show ?thesis .
  next
    case False
    have "root_loop es st = Inr st'" using "3.prems"(1) False by (simp add: Let_def)
    from "3.IH"(2)[OF refl False this "3.prems"(2)] show ?thesis .
  qed
next
  case (4 ps es st)
  let ?st = "st\<lparr>playlist_hide_status := tractor_loop ps (playlist_hide_status st)\<rparr>"
  have "root_loop es ?st = Inr st'" using "4.prems"(1) by simp
  from "4.IH"[OF this] "4.prems"(2) show ?case by simp
next
  case (5 es st)
  have "root_loop es st = Inr st'" using "5.prems"(1) by simp
  from "5.IH"[OF this "5.prems"(2)] show ?case .
qed

lemma root_loop_valid_kept:
  "root_loop root st = Inr st' \<Longrightarrow> Playlist pid evs \<in> set root \<Longrightarrow>
   is_valid (playlist_init pid evs) \<Longrightarrow> pid \<in> fst ` set (playlists st')"
proof (induction root st rule: root_loop.induct)
  case (1 st)
  then show ?case by simp
next
  case (2 cid ps es st)
  from "2.prems"(1) obtain fname where f: "chain_loop ps (chain_filename st) = Some fname"
    by (auto split: option.splits)
  let ?st = "st\<lparr>chain_filename := Some fname, chains := AList.update cid fname (chains st)\<rparr>"
  have "root_loop es ?st = Inr st'" using "2.prems"(1) f by simp
  moreover have "Playlist pid evs \<in> set es" using "2.prems"(2) by simp
  ultimately show ?case using "2.IH"[OF f] "2.prems"(3) by blast
next
  case (3 pid' children es st)
  let ?np = "playlist_init pid' children"
  show ?case
  proof (cases "is_valid ?np")
    case True
    let ?st = "st\<lparr>playlists := AList.update pid' ?np (playlists st)\<rparr>"
    have r: "root_loop es ?st = Inr st'" using "3.prems"(1) True by (simp add: Let_def)
    show ?thesis
    proof (cases "Playlist pid evs \<in> set es")
      case True
      from "3.IH"(1)[OF refl \<open>is_valid ?np\<close> r True "3.prems"(3)] show ?thesis .
    next
      case False
      then have "pid' = pid" using "3.prems"(2) by simp
      then have "pid \<in> fst ` set (playlists ?st)" by (simp add: AList.dom_update)
      with r show ?thesis by (rule root_loop_keys_mono)
    qed
  next
    case False
    have r: "root_loop es st = Inr st'" using "3.prems"(1) False by (simp add: Let_def)
    have "Playlist pid evs \<in> set es" using "3.prems"(2,3) False by auto
    from "3.IH"(2)[OF refl False r this "3.prems"(3)] show ?thesis .
  qed
next
  case (4 ps es st)
  let ?st = "st\<lparr>playlist_hide_status := tractor_loop ps (playlist_hide_status st)\<rparr>"
  have "root_loop es ?st = Inr st'" using "4.prems"(1) by simp
  moreover have "Playlist pid evs \<in> set es" using "4.prems"(2) by simp
  ultimately show ?case using "4.IH" "4.prems"(3) by blast
next
  case (5 es st)
  have "root_loop es st = Inr st'" using "5.prems"(1) by simp
  moreover have "Playlist pid evs \<in> set es" using "5.prems"(2) by simp
  ultimately show ?case using "5.IH" "5.prems"(3) by blast
qed

lemma root_loop_declared:
  "root_loop root st = Inr st' \<Longrightarrow> map_of (playlist_hide_status st') k = Some h \<Longrightarrow>
   map_of (playlist_hide_status st) k = Some h \<or>
   (\<exists>trs. Tractor trs \<in> set root \<and> Track k (Some h) \<in> set trs)"
proof (induction root st rule: root_loop.induct)
  case (1 st)
  then show ?case by simp
next
  case (2 cid ps es st)
  from "2.prems"(1) obtain fname where f: "chain_loop ps (chain_filename st) = Some fname"
    by (auto split: option.splits)
  let ?st = "st\<lparr>chain_filename := Some fname, chains := AList.update cid fname (chains st)\<rparr>"
  have "root_loop es ?st = Inr st'" using "2.prems"(1) f by simp
  from "2.IH"[OF f this "2.prems"(2)] show ?case by auto
next
  case (3 pid children es st)
  let ?np = "playlist_init pid children"
  show ?case
  proof (cases "is_valid ?np")
    case True
    let ?st = "st\<lparr>playlists := AList.update pid ?np (playlists st)\<rparr>"
    have "root_loop es ?st = Inr st'" using "3.prems"(1) True by (simp add: Let_def)
    from "3.IH"(1)[OF refl True this "3.prems"(2)] show ?thesis by auto
  next
    case False
    have "root_loop es st = Inr st'" using "3.prems"(1) False by (simp add: Let_def)
    from "3.IH"(2)[OF refl False this "3.prems"(2)] show ?thesis by auto
  qed
next
  case (4 ps es st)
  let ?st = "st\<lparr>playlist_hide_status := tractor_loop ps (playlist_hide_status st)\<rparr>"
  have "root_loop es ?st = Inr st'" using "4.prems"(1) by simp
  from "4.IH"[OF this "4.prems"(2)]
  have "map_of (tractor_loop ps (playlist_hide_status st)) k = Some h \<or>
    (\<exists>trs. Tractor trs \<in> set es \<and> Track k (Some h) \<in> set trs)" by simp
  then show ?case using tractor_loop_declared[of ps "playlist_hide_status st" k h] by auto
next
  case (5 es st)
  have "root_loop es st = Inr st'" using "5.prems"(1) by simp
  from "5.IH"[OF this "5.prems"(2)] show ?case by auto
qed

lemma muted_loop_Inr:
  "muted_loop ids hs acc = Inr ms \<Longrightarrow>
   set ms = set acc \<union> {i \<in> set ids. map_of hs i = Some ''both''} \<and>
   (\<forall>i \<in> set ids. map_of hs i \<noteq> None)"
proof (induction ids arbitrary: acc)
  case Nil
  then show ?case by simp
next
  case (Cons i ids)
  from Cons.prems obtain status where s: "map_of hs i = Some status"
    by (cases "map_of hs i") simp_all
  let ?acc = "if status = ''both'' then acc @ [i] else acc"
  have "muted_loop ids hs ?acc = Inr ms" using Cons.prems s by simp
  from Cons.IH[OF this] show ?case using s by (auto split: if_splits)
qed

lemma muted_loop_Inl:
  "muted_loop ids hs acc = Inl err \<Longrightarrow> \<exists>k \<in> set ids. err = KeyError k \<and> map_of hs k = None"
proof (induction ids arbitrary: acc)
  case Nil
  then show ?case by simp
next
  case (Cons i ids)
  show ?case
  proof (cases "map_of hs i")
    case None
    then show ?thesis using Cons.prems by auto
  next
    case (Some status)
    let ?acc = "if status = ''both'' then acc @ [i] else acc"
    have "muted_loop ids hs ?acc = Inl err" using Cons.prems Some by simp
    from Cons.IH[OF this] show ?thesis by auto
  qed
qed

lemma muted_loop_missing:
  assumes "i \<in> set ids" and "map_of hs i = None"
  shows "\<exists>k \<in> set ids. muted_loop ids hs acc = Inl (KeyError k) \<and> map_of hs k = None"
proof (cases "muted_loop ids hs acc")
  case (Inl err)
  then show ?thesis using muted_loop_Inl[OF Inl] by auto
next
  case (Inr ms)
  then show ?thesis using muted_loop_Inr[OF Inr] assms by blast
qed

lemma parse_Inr:
  assumes "parse_kdenlive_project root = Inr (chs, pls)"
  shows "\<exists>st ms. root_loop root initial_state = Inr st \<and>
           muted_loop (map fst (playlists st)) (playlist_hide_status st) [] = Inr ms \<and>
           chs = chains st \<and> pls = fold AList.delete ms (playlists st)"
  using assms unfolding parse_kdenlive_project_def
  by (auto split: sum.splits)

section \<open>Evaluated examples\<close>

lemma example_timeline:
  "timeline (playlist_init ''playlist0''
     [Blank 2000000, Entry ''chain0'' 0 5000000, Entry ''chain1'' 1000000 3000000]) =
   [\<lparr>chain_id = ''chain0'', timeline_in = 2000000, chain_in = 0, chain_out = 5000000\<rparr>,
    \<lparr>chain_id = ''chain1'', timeline_in = 7000000, chain_in = 1000000, chain_out = 3000000\<rparr>]"
  by (simp add: timeline_playlist_init startswith_def)

lemma example_gap_timeline:
  "timeline (playlist_init ''playlist0''
     [Blank 2000000, Entry ''chain0'' 0 5000000, Blank 3000000,
      Entry ''chain1'' 1000000 3000000]) =
   [\<lparr>chain_id = ''chain0'', timeline_in = 2000000, chain_in = 0, chain_out = 5000000\<rparr>,
    \<lparr>chain_id = ''chain1'', timeline_in = 10000000, chain_in = 1000000, chain_out = 3000000\<rparr>]"
  by (simp add: timeline_playlist_init startswith_def)

lemma example_walk:
  "root_loop
     [Chain ''chain0'' [Property ''resource'' ''a.mp4''],
      Playlist ''main_bin'' [Entry ''chain0'' 0 5000000],
      Playlist ''playlist0'' [Entry ''chain0'' 0 5000000],
      Playlist ''playlist1'' [Entry ''chain0'' 0 1000000],
      Playlist ''playlist2'' [Blank 1000000],
      Tractor [Track ''playlist0'' (Some ''both''), Track ''playlist1'' (Some ''video'')]]
     initial_state =
   Inr \<lparr>chain_filename = Some ''a.mp4'', chains = [(''chain0'', ''a.mp4'')],
        playlists =
          [(''playlist0'', playlist_init ''playlist0'' [Entry ''chain0'' 0 5000000]),
           (''playlist1'', playlist_init ''playlist1'' [Entry ''chain0'' 0 1000000])],
        playlist_hide_status = [(''playlist0'', ''both''), (''playlist1'', ''video'')]\<rparr>"
  by (simp add: initial_state_def is_valid_playlist_init startswith_def Let_def)

lemma example_parse:
  "parse_kdenlive_project
     [Chain ''chain0'' [Property ''resource'' ''a.mp4''],
      Playlist ''main_bin'' [Entry ''chain0'' 0 5000000],
      Playlist ''playlist0'' [Entry ''chain0'' 0 5000000],
      Playlist ''playlist1'' [Entry ''chain0'' 0 1000000],
      Playlist ''playlist2'' [Blank 1000000],
      Tractor [Track ''playlist0'' (Some ''both''), Track ''playlist1'' (Some ''video'')]] =
   Inr ([(''chain0'', ''a.mp4'')],
        [(''playlist1'', playlist_init ''playlist1'' [Entry ''chain0'' 0 1000000])])"
  unfolding parse_kdenlive_project_def example_walk by simp

lemma example_walk_undeclared:
  "root_loop
     [Chain ''chain0'' [Property ''resource'' ''a.mp4''],
      Playlist ''playlist0'' [Entry ''chain0'' 0 5000000],
      Playlist ''playlist1'' [Entry ''chain0'' 0 1000000],
      Tractor [Track ''playlist0'' (Some ''video''), Track ''playlist1'' None]]
     initial_state =
   Inr \<lparr>chain_filename = Some ''a.mp4'', chains = [(''chain0'', ''a.mp4'')],
        playlists =
          [(''playlist0'', playlist_init ''playlist0'' [Entry ''chain0'' 0 5000000]),
           (''playlist1'', playlist_init ''playlist1'' [Entry ''chain0'' 0 1000000])],
        playlist_hide_status = [(''playlist0'', ''video'')]\<rparr>"
  by (simp add: initial_state_def is_valid_playlist_init startswith_def Let_def)

section \<open>The claims\<close>

text \<open>
  Claim C1. The timeline builder is the fold of the specification: the cursor starts at
  0, a gap adds its length to it and emits nothing, a recognised clip reference emits a
  placed clip at the cursor with the given source range and then advances the cursor by
  \<open>source_out - source_in\<close>. The constructor's timeline holds exactly the emitted clips,
  in the order of their \<open>timeline_in\<close> (emission order among equal ones), which is the
  emission order itself whenever no recognised clip has \<open>out < in\<close>. Building from a gap
  of 2 s, clip A with in 0 s and out 5 s, and clip B with in 1 s and out 3 s places A at
  2 s with duration 5 s and B at 7 s with duration 2 s. Times are in microseconds.
\<close>

theorem builder_fold_semantics:
  "pid \<noteq> ''main_bin'' \<Longrightarrow>
   fst (init_loop evs (0, [], False)) = spec_cursor 0 evs \<and>
   timeline (playlist_init pid evs) = sort_key timeline_in (spec_emitted 0 evs) \<and>
   ((\<forall>cid i out. Entry cid i out \<in> set evs \<and> startswith cid ''chain'' \<longrightarrow> i \<le> out) \<longrightarrow>
      timeline (playlist_init pid evs) = spec_emitted 0 evs) \<and>
   (startswith A ''chain'' \<and> startswith B ''chain'' \<longrightarrow>
      timeline (playlist_init pid
        [Blank 2000000, Entry A 0 5000000, Entry B 1000000 3000000]) =
        [\<lparr>chain_id = A, timeline_in = 2000000, chain_in = 0, chain_out = 5000000\<rparr>,
         \<lparr>chain_id = B, timeline_in = 7000000, chain_in = 1000000, chain_out = 3000000\<rparr>] \<and>
      map length_timeline_obj (timeline (playlist_init pid
        [Blank 2000000, Entry A 0 5000000, Entry B 1000000 3000000])) = [5000000, 2000000])"
proof -
  assume pid: "pid \<noteq> ''main_bin''"
  have t: "timeline (playlist_init pid es) = sort_key timeline_in (spec_emitted 0 es)" for es
    using pid by (simp add: timeline_playlist_init)
  have c: "fst (init_loop evs (0, [], False)) = spec_cursor 0 evs"
    by (simp add: init_loop_spec)
  have m: "timeline (playlist_init pid evs) = spec_emitted 0 evs"
    if "\<forall>cid i out. Entry cid i out \<in> set evs \<and> startswith cid ''chain'' \<longrightarrow> i \<le> out"
    using spec_emitted_sorted[OF that, of 0] by (simp add: t sort_key_id_if_sorted)
  have e: "timeline (playlist_init pid
        [Blank 2000000, Entry A 0 5000000, Entry B 1000000 3000000]) =
        [\<lparr>chain_id = A, timeline_in = 2000000, chain_in = 0, chain_out = 5000000\<rparr>,
         \<lparr>chain_id = B, timeline_in = 7000000, chain_in = 1000000, chain_out = 3000000\<rparr>]"
    if "startswith A ''chain''" "startswith B ''chain''"
    using that by (simp add: t)
  show ?thesis using c t m e by (simp add: length_timeline_obj_def)
qed

theorem builder_fold_semantics_witness:
  "timeline (playlist_init ''playlist0''
     [Blank 2000000, Entry ''chain0'' 0 5000000, Entry ''chain1'' 1000000 3000000]) =
     [\<lparr>chain_id = ''chain0'', timeline_in = 2000000, chain_in = 0, chain_out = 5000000\<rparr>,
      \<lparr>chain_id = ''chain1'', timeline_in = 7000000, chain_in = 1000000, chain_out = 3000000\<rparr>] \<and>
   spec_emitted 0 [Blank 2000000, Entry ''chain0'' 0 5000000, Entry ''chain1'' 1000000 3000000] =
     [\<lparr>chain_id = ''chain0'', timeline_in = 2000000, chain_in = 0, chain_out = 5000000\<rparr>,
      \<lparr>chain_id = ''chain1'', timeline_in = 7000000, chain_in = 1000000, chain_out = 3000000\<rparr>] \<and>
   fst (init_loop [Blank 2000000, Entry ''chain0'' 0 5000000, Entry ''chain1'' 1000000 3000000]
     (0, [], False)) = 9000000"
proof -
  let ?evs = "[Blank 2000000, Entry ''chain0'' 0 5000000, Entry ''chain1'' 1000000 3000000]"
  have p: "''playlist0'' \<noteq> ''main_bin''" by simp
  have s: "startswith ''chain0'' ''chain'' \<and> startswith ''chain1'' ''chain''"
    by (simp add: startswith_def)
  have h: "\<forall>cid i out. Entry cid i out \<in> set ?evs \<and> startswith cid ''chain'' \<longrightarrow> i \<le> out"
    by auto
  have e: "spec_emitted 0 ?evs =
     [\<lparr>chain_id = ''chain0'', timeline_in = 2000000, chain_in = 0, chain_out = 5000000\<rparr>,
      \<lparr>chain_id = ''chain1'', timeline_in = 7000000, chain_in = 1000000, chain_out = 3000000\<rparr>]"
    by (simp add: startswith_def)
  have c: "spec_cursor 0 ?evs = 9000000" by (simp add: startswith_def)
  note t = builder_fold_semantics[OF p, of ?evs "''chain0''" "''chain1''"]
  have t1: "fst (init_loop ?evs (0, [], False)) = spec_cursor 0 ?evs" using t by (rule conjunct1)
  have t3: "timeline (playlist_init ''playlist0'' ?evs) = spec_emitted 0 ?evs"
    using t h by blast
  show ?thesis unfolding t1 t3 e c by simp
qed

text \<open>
  Claim C2. For a track built by the constructor and a window from \<open>s\<close> to \<open>e\<close> such that
  some placed clip has \<open>timeline_in \<le> s\<close>, the query succeeds; its first result is the
  rightmost placed clip with \<open>timeline_in \<le> s\<close> (position \<open>k\<close>: every later clip starts
  after \<open>s\<close>), with no condition on where that clip ends, and the rest of the result is,
  in timeline order, every later clip with \<open>timeline_in < e\<close>, with no condition on
  where it ends.
\<close>

theorem interval_query_result:
  assumes "\<exists>t \<in> set (timeline (playlist_init pid evs)). timeline_in t \<le> s"
  shows "\<exists>k < length (timeline (playlist_init pid evs)).
           timeline_in (timeline (playlist_init pid evs) ! k) \<le> s \<and>
           (\<forall>j. k < j \<and> j < length (timeline (playlist_init pid evs)) \<longrightarrow>
                s < timeline_in (timeline (playlist_init pid evs) ! j)) \<and>
           seek_chains (playlist_init pid evs) s e =
             Inr (timeline (playlist_init pid evs) ! k #
                  filter (\<lambda>t. timeline_in t < e)
                    (drop (Suc k) (timeline (playlist_init pid evs))))"
  using sorted_timeline_playlist_init assms by (rule seek_chains_rightmost)

theorem interval_query_result_witness:
  "seek_chains (playlist_init ''playlist0''
     [Blank 2000000, Entry ''chain0'' 0 5000000, Blank 3000000,
      Entry ''chain1'' 1000000 3000000]) 8000000 11000000 =
   Inr [\<lparr>chain_id = ''chain0'', timeline_in = 2000000, chain_in = 0, chain_out = 5000000\<rparr>,
        \<lparr>chain_id = ''chain1'', timeline_in = 10000000, chain_in = 1000000,
          chain_out = 3000000\<rparr>] \<and>
   (2000000::int) + length_timeline_obj
      \<lparr>chain_id = ''chain0'', timeline_in = 2000000, chain_in = 0, chain_out = 5000000\<rparr>
     \<le> 8000000"
proof -
  let ?p = "playlist_init ''playlist0''
     [Blank 2000000, Entry ''chain0'' 0 5000000, Blank 3000000,
      Entry ''chain1'' 1000000 3000000]"
  have h: "\<exists>t \<in> set (timeline ?p). timeline_in t \<le> 8000000"
    unfolding example_gap_timeline by simp
  obtain k where k: "k < length (timeline ?p)"
    and le: "timeline_in (timeline ?p ! k) \<le> 8000000"
    and r: "seek_chains ?p 8000000 11000000 =
             Inr (timeline ?p ! k #
                  filter (\<lambda>t. timeline_in t < 11000000) (drop (Suc k) (timeline ?p)))"
    using interval_query_result[OF h, of 11000000] by blast
  have "k = 0 \<or> k = 1" using k unfolding example_gap_timeline by auto
  moreover have "k \<noteq> 1" using le unfolding example_gap_timeline by auto
  ultimately have "k = 0" by simp
  then show ?thesis using r unfolding example_gap_timeline
    by (simp add: length_timeline_obj_def)
qed

text \<open>
  Claim C3, as amended. For a clip \<open>t\<close> of a query result and the window from \<open>s\<close> to
  \<open>e\<close>: when \<open>timeline_in t \<le> s\<close>, the emitted start is
  \<open>chain_in t + max 0 (s - timeline_in t)\<close>; the emitted end is \<open>chain_out t\<close> when the
  clip is shorter than the window, and otherwise the emitted start plus the window
  length \<open>e - s\<close>.
\<close>

theorem trim_computation:
  "(timeline_in t \<le> s \<longrightarrow> fst (trim t s e) = chain_in t + max 0 (s - timeline_in t)) \<and>
   snd (trim t s e) =
     (if length_timeline_obj t < e - s then chain_out t else fst (trim t s e) + (e - s))"
  by (simp add: trim_def Let_def)

theorem trim_computation_witness:
  "trim \<lparr>chain_id = ''chain0'', timeline_in = 2000000, chain_in = 0, chain_out = 5000000\<rparr>
     3000000 6000000 = (1000000, 4000000)"
proof -
  let ?t = "\<lparr>chain_id = ''chain0'', timeline_in = 2000000, chain_in = 0, chain_out = 5000000\<rparr>"
  have h: "timeline_in ?t \<le> 3000000" by simp
  show ?thesis
    using trim_computation[of ?t 3000000 6000000] h
    by (simp add: prod_eq_iff length_timeline_obj_def)
qed

text \<open>
  The claim as stated fails on the track of the specification's example and the window
  from 3 s to 8 s. The query returns both clips. Clip A is as long as the window: its
  emitted end is 6 s where the claim gives 0 s + 5 s. Clip B starts after the window's
  start: its emitted start is 1 s - 4 s where the claim gives 1 s.
\<close>

theorem trim_computation_counterexample:
  "seek_chains (playlist_init ''playlist0''
     [Blank 2000000, Entry ''chain0'' 0 5000000, Entry ''chain1'' 1000000 3000000])
     3000000 8000000 =
   Inr [\<lparr>chain_id = ''chain0'', timeline_in = 2000000, chain_in = 0, chain_out = 5000000\<rparr>,
        \<lparr>chain_id = ''chain1'', timeline_in = 7000000, chain_in = 1000000, chain_out = 3000000\<rparr>] \<and>
   trim \<lparr>chain_id = ''chain0'', timeline_in = 2000000, chain_in = 0, chain_out = 5000000\<rparr>
     3000000 8000000 = (1000000, 6000000) \<and>
   spec_trim \<lparr>chain_id = ''chain0'', timeline_in = 2000000, chain_in = 0, chain_out = 5000000\<rparr>
     3000000 8000000 = (1000000, 5000000) \<and>
   trim \<lparr>chain_id = ''chain1'', timeline_in = 7000000, chain_in = 1000000, chain_out = 3000000\<rparr>
     3000000 8000000 = (- 3000000, 3000000) \<and>
   spec_trim \<lparr>chain_id = ''chain1'', timeline_in = 7000000, chain_in = 1000000, chain_out = 3000000\<rparr>
     3000000 8000000 = (1000000, 3000000)"
proof -
  let ?p = "playlist_init ''playlist0''
     [Blank 2000000, Entry ''chain0'' 0 5000000, Entry ''chain1'' 1000000 3000000]"
  have "seek_chains ?p 3000000 8000000 =
   Inr [\<lparr>chain_id = ''chain0'', timeline_in = 2000000, chain_in = 0, chain_out = 5000000\<rparr>,
        \<lparr>chain_id = ''chain1'', timeline_in = 7000000, chain_in = 1000000, chain_out = 3000000\<rparr>]"
    unfolding seek_chains_sorted[OF sorted_timeline_playlist_init] example_timeline by simp
  then show ?thesis
    by (simp add: trim_def spec_trim_def Let_def length_timeline_obj_def)
qed

text \<open>
  Claim C4, as amended. The query raises no error for a window that starts before the
  first placed clip: whatever the window, a track with a non-empty timeline yields a
  result, and the query fails, with Python's \<open>IndexError\<close>, exactly when the
  timeline is empty.
\<close>

theorem seek_chains_fails_only_when_empty:
  "(timeline p \<noteq> [] \<longrightarrow> (\<exists>r. seek_chains p s e = Inr r)) \<and>
   (timeline p = [] \<longrightarrow> seek_chains p s e = Inl IndexError)"
  by (simp add: seek_chains_cases)

theorem seek_chains_fails_only_when_empty_witness:
  "(\<exists>r. seek_chains (playlist_init ''playlist0''
      [Blank 2000000, Entry ''chain0'' 0 5000000, Entry ''chain1'' 1000000 3000000])
      1000000 3000000 = Inr r) \<and>
   seek_chains (playlist_init ''playlist0'' [Blank 2000000]) 1000000 3000000 = Inl IndexError"
proof -
  let ?p = "playlist_init ''playlist0''
     [Blank 2000000, Entry ''chain0'' 0 5000000, Entry ''chain1'' 1000000 3000000]"
  let ?q = "playlist_init ''playlist0'' [Blank 2000000]"
  have n: "timeline ?p \<noteq> []" unfolding example_timeline by simp
  have m: "timeline ?q = []" by (simp add: timeline_playlist_init)
  show ?thesis
    using seek_chains_fails_only_when_empty[of ?p 1000000 3000000]
      seek_chains_fails_only_when_empty[of ?q 1000000 3000000] n m
    by blast
qed

text \<open>
  The claim as stated fails on the track of the specification's example: the first
  placed clip starts at 2 s, the window from 1 s to 3 s starts before it, and the query
  returns the last clip followed by the first instead of failing.
\<close>

theorem out_of_range_window_counterexample:
  "timeline (playlist_init ''playlist0''
     [Blank 2000000, Entry ''chain0'' 0 5000000, Entry ''chain1'' 1000000 3000000]) \<noteq> [] \<and>
   1000000 < timeline_in (hd (timeline (playlist_init ''playlist0''
     [Blank 2000000, Entry ''chain0'' 0 5000000, Entry ''chain1'' 1000000 3000000]))) \<and>
   seek_chains (playlist_init ''playlist0''
     [Blank 2000000, Entry ''chain0'' 0 5000000, Entry ''chain1'' 1000000 3000000])
     1000000 3000000 =
   Inr [\<lparr>chain_id = ''chain1'', timeline_in = 7000000, chain_in = 1000000, chain_out = 3000000\<rparr>,
        \<lparr>chain_id = ''chain0'', timeline_in = 2000000, chain_in = 0, chain_out = 5000000\<rparr>]"
proof -
  let ?p = "playlist_init ''playlist0''
     [Blank 2000000, Entry ''chain0'' 0 5000000, Entry ''chain1'' 1000000 3000000]"
  have "seek_chains ?p 1000000 3000000 =
   Inr [\<lparr>chain_id = ''chain1'', timeline_in = 7000000, chain_in = 1000000, chain_out = 3000000\<rparr>,
        \<lparr>chain_id = ''chain0'', timeline_in = 2000000, chain_in = 0, chain_out = 5000000\<rparr>]"
    unfolding seek_chains_sorted[OF sorted_timeline_playlist_init] example_timeline by simp
  then show ?thesis unfolding example_timeline by simp
qed

text \<open>
  Claim C5. When every recognised clip event of the sequence has \<open>out > in\<close>, the
  constructor's timeline is strictly ordered by \<open>timeline_in\<close>, and each placed clip ends
  (\<open>timeline_in\<close> plus length) no later than every later one starts, so that no two of
  the ranges from \<open>timeline_in\<close> to \<open>timeline_in\<close> plus length overlap.
\<close>

theorem ordering_invariant:
  assumes "\<forall>cid i out. Entry cid i out \<in> set evs \<and> startswith cid ''chain'' \<longrightarrow> i < out"
  shows "sorted_wrt (\<lambda>a b. timeline_in a < timeline_in b) (timeline (playlist_init pid evs)) \<and>
         sorted_wrt (\<lambda>a b. timeline_in a + length_timeline_obj a \<le> timeline_in b)
           (timeline (playlist_init pid evs))"
proof (cases "pid = ''main_bin''")
  case True
  then show ?thesis by (simp add: timeline_playlist_init)
next
  case False
  have le: "\<forall>cid i out. Entry cid i out \<in> set evs \<and> startswith cid ''chain'' \<longrightarrow> i \<le> out"
    using assms by (auto intro: less_imp_le)
  have t: "timeline (playlist_init pid evs) = spec_emitted 0 evs"
    using False spec_emitted_sorted[OF le, of 0]
    by (simp add: timeline_playlist_init sort_key_id_if_sorted)
  note ch = spec_emitted_chain[OF le, of 0]
  note pos = spec_emitted_positive[OF assms, of 0]
  have "sorted_wrt (\<lambda>a b. timeline_in a < timeline_in b) (spec_emitted 0 evs)"
  proof (rule sorted_wrt_mono_rel[OF _ conjunct1[OF ch]])
    fix a b assume "a \<in> set (spec_emitted 0 evs)"
      and "timeline_in a + length_timeline_obj a \<le> timeline_in b"
    moreover from this pos have "0 < length_timeline_obj a" by blast
    ultimately show "timeline_in a < timeline_in b" by simp
  qed
  then show ?thesis using ch unfolding t by blast
qed

theorem ordering_invariant_witness:
  "sorted_wrt (\<lambda>a b. timeline_in a < timeline_in b)
     [\<lparr>chain_id = ''chain0'', timeline_in = 2000000, chain_in = 0, chain_out = 5000000\<rparr>,
      \<lparr>chain_id = ''chain1'', timeline_in = 7000000, chain_in = 1000000, chain_out = 3000000\<rparr>] \<and>
   timeline (playlist_init ''playlist0''
     [Blank 2000000, Entry ''chain0'' 0 5000000, Entry ''black'' 9 3,
      Entry ''chain1'' 1000000 3000000]) =
     [\<lparr>chain_id = ''chain0'', timeline_in = 2000000, chain_in = 0, chain_out = 5000000\<rparr>,
      \<lparr>chain_id = ''chain1'', timeline_in = 7000000, chain_in = 1000000, chain_out = 3000000\<rparr>]"
proof -
  let ?evs = "[Blank 2000000, Entry ''chain0'' 0 5000000, Entry ''black'' 9 3,
      Entry ''chain1'' 1000000 3000000]"
  have h: "\<forall>cid i out. Entry cid i out \<in> set ?evs \<and> startswith cid ''chain'' \<longrightarrow> i < out"
    by (auto simp: startswith_def)
  have e: "timeline (playlist_init ''playlist0'' ?evs) =
     [\<lparr>chain_id = ''chain0'', timeline_in = 2000000, chain_in = 0, chain_out = 5000000\<rparr>,
      \<lparr>chain_id = ''chain1'', timeline_in = 7000000, chain_in = 1000000, chain_out = 3000000\<rparr>]"
    by (simp add: timeline_playlist_init startswith_def)
  show ?thesis using ordering_invariant[OF h, of "''playlist0''"] unfolding e by simp
qed

text \<open>
  Claim C6. A clip reference whose producer is not of the media-clip class (its
  identifier does not start with \<open>chain\<close>) is skipped: the loop's state, that is the
  cursor, the timeline and the validity flag, is what it was before the event, and the
  playlist built from a sequence is the one built from the sequence without the event.
\<close>

theorem non_media_entry_skipped:
  "\<not> startswith cid ''chain'' \<Longrightarrow>
   init_loop [Entry cid i out] (current_time, tline, v) = (current_time, tline, v) \<and>
   init_loop (Entry cid i out # cs) (current_time, tline, v) =
     init_loop cs (current_time, tline, v) \<and>
   playlist_init pid (xs @ Entry cid i out # ys) = playlist_init pid (xs @ ys)"
proof -
  assume n: "\<not> startswith cid ''chain''"
  have "init_loop (xs @ Entry cid i out # ys) st = init_loop (xs @ ys) st" for st
  proof -
    obtain c t b where st: "init_loop xs st = (c, t, b)" by (cases "init_loop xs st") auto
    show ?thesis using n by (simp add: init_loop_append st)
  qed
  then show ?thesis using n by (simp add: playlist_init_def)
qed

theorem non_media_entry_skipped_witness:
  "init_loop [Entry ''black_track'' 0 5000000] (2000000, [], False) = (2000000, [], False) \<and>
   playlist_init ''playlist0''
     ([Blank 2000000] @ Entry ''black_track'' 0 5000000 # [Entry ''chain1'' 1000000 3000000]) =
   \<lparr>playlist_id = ''playlist0'',
    timeline = [\<lparr>chain_id = ''chain1'', timeline_in = 2000000, chain_in = 1000000,
                 chain_out = 3000000\<rparr>],
    is_valid = True\<rparr>"
proof -
  have n: "\<not> startswith ''black_track'' ''chain''" by (simp add: startswith_def)
  have e: "playlist_init ''playlist0'' ([Blank 2000000] @ [Entry ''chain1'' 1000000 3000000]) =
    \<lparr>playlist_id = ''playlist0'',
     timeline = [\<lparr>chain_id = ''chain1'', timeline_in = 2000000, chain_in = 1000000,
                 chain_out = 3000000\<rparr>],
     is_valid = True\<rparr>"
    by (simp add: playlist_init_def insort_right_Nil startswith_def Let_def)
  note t = non_media_entry_skipped[OF n, of 0 5000000 2000000 "[]" False "[]" "''playlist0''"
        "[Blank 2000000]" "[Entry ''chain1'' 1000000 3000000]"]
  have a: "init_loop [Entry ''black_track'' 0 5000000] (2000000, [], False) = (2000000, [], False)"
    using t by (rule conjunct1)
  have b: "playlist_init ''playlist0''
     ([Blank 2000000] @ Entry ''black_track'' 0 5000000 # [Entry ''chain1'' 1000000 3000000]) =
     playlist_init ''playlist0'' ([Blank 2000000] @ [Entry ''chain1'' 1000000 3000000])"
    using t by (rule conjunct2[OF conjunct2])
  show ?thesis by (intro conjI) (rule a, simp only: b e)
qed

text \<open>
  Claim C7. A track is valid exactly when it is not the asset bin \<open>main_bin\<close> and holds
  at least one recognised clip entry. The asset bin is the empty, invalid track whatever
  its children are; a track built from gaps alone is invalid. Only valid tracks reach the
  track set that \<open>parse_kdenlive_project\<close> returns, which is the set that is queried:
  each of its members is the valid track built from a playlist element of the document.
\<close>

theorem track_validity:
  "(is_valid (playlist_init pid evs) \<longleftrightarrow>
      pid \<noteq> ''main_bin'' \<and>
      (\<exists>cid i out. Entry cid i out \<in> set evs \<and> startswith cid ''chain'')) \<and>
   playlist_init ''main_bin'' evs =
     \<lparr>playlist_id = ''main_bin'', timeline = [], is_valid = False\<rparr> \<and>
   ((\<forall>c \<in> set evs. \<exists>n. c = Blank n) \<longrightarrow> \<not> is_valid (playlist_init pid evs)) \<and>
   (parse_kdenlive_project root = Inr (chs, pls) \<longrightarrow>
      (\<forall>(k, p) \<in> set pls.
         is_valid p \<and> (\<exists>children. Playlist k children \<in> set root \<and> p = playlist_init k children)))"
proof -
  have a: "is_valid (playlist_init pid evs) \<longleftrightarrow>
      pid \<noteq> ''main_bin'' \<and>
      (\<exists>cid i out. Entry cid i out \<in> set evs \<and> startswith cid ''chain'')"
    by (rule is_valid_iff)
  have b: "playlist_init ''main_bin'' evs =
     \<lparr>playlist_id = ''main_bin'', timeline = [], is_valid = False\<rparr>"
    by (simp add: playlist_init_def)
  have c: "\<not> is_valid (playlist_init pid evs)" if "\<forall>c \<in> set evs. \<exists>n. c = Blank n"
    unfolding a using that by fastforce
  have d: "\<forall>(k, p) \<in> set pls.
         is_valid p \<and> (\<exists>children. Playlist k children \<in> set root \<and> p = playlist_init k children)"
    if "parse_kdenlive_project root = Inr (chs, pls)"
  proof -
    from parse_Inr[OF that] obtain st ms where
      w: "root_loop root initial_state = Inr st" and
      pls: "pls = fold AList.delete ms (playlists st)" by blast
    have "is_valid p \<and> (\<exists>children. Playlist k children \<in> set root \<and> p = playlist_init k children)"
      if "(k, p) \<in> set pls" for k p
    proof -
      have "(k, p) \<in> set (playlists st)"
        using that set_fold_delete_subset[of ms "playlists st"] unfolding pls by blast
      from root_loop_playlists[OF w this] show ?thesis
        by (auto simp: initial_state_def)
    qed
    then show ?thesis by blast
  qed
  show ?thesis using a b c d by blast
qed

theorem track_validity_witness:
  "is_valid (playlist_init ''playlist0'' [Entry ''chain0'' 0 5000000]) \<and>
   \<not> is_valid (playlist_init ''playlist2'' [Blank 1000000]) \<and>
   playlist_init ''main_bin'' [Entry ''chain0'' 0 5000000] =
     \<lparr>playlist_id = ''main_bin'', timeline = [], is_valid = False\<rparr> \<and>
   is_valid (playlist_init ''playlist1'' [Entry ''chain0'' 0 1000000])"
proof -
  let ?root = "[Chain ''chain0'' [Property ''resource'' ''a.mp4''],
      Playlist ''main_bin'' [Entry ''chain0'' 0 5000000],
      Playlist ''playlist0'' [Entry ''chain0'' 0 5000000],
      Playlist ''playlist1'' [Entry ''chain0'' 0 1000000],
      Playlist ''playlist2'' [Blank 1000000],
      Tractor [Track ''playlist0'' (Some ''both''), Track ''playlist1'' (Some ''video'')]]"
  let ?pls = "[(''playlist1'', playlist_init ''playlist1'' [Entry ''chain0'' 0 1000000])]"
  have s: "startswith ''chain0'' ''chain''" by (simp add: startswith_def)
  have a: "is_valid (playlist_init ''playlist0'' [Entry ''chain0'' 0 5000000])"
    using track_validity[of "''playlist0''" "[Entry ''chain0'' 0 5000000]" "[]" "[]" "[]"] s
    by simp
  have b: "\<not> is_valid (playlist_init ''playlist2'' [Blank 1000000])"
    using track_validity[of "''playlist2''" "[Blank 1000000]" "[]" "[]" "[]"] by simp
  have c: "playlist_init ''main_bin'' [Entry ''chain0'' 0 5000000] =
     \<lparr>playlist_id = ''main_bin'', timeline = [], is_valid = False\<rparr>"
    using track_validity[of "''main_bin''" "[Entry ''chain0'' 0 5000000]" "[]" "[]" "[]"]
    by blast
  have d: "is_valid (playlist_init ''playlist1'' [Entry ''chain0'' 0 1000000])"
    using track_validity[of "''p''" "[]" ?root "[(''chain0'', ''a.mp4'')]" ?pls] example_parse
    by simp
  show ?thesis using a b c d by blast
qed

text \<open>
  Claim C8. When project loading succeeds, a valid track (an entry of the dictionary
  \<open>playlists\<close> after the walk over the document) whose identifier has a declared
  hide-mode \<open>h\<close> (its entry in \<open>playlist_hide_status\<close>) is absent from the returned track
  set if and only if \<open>h\<close> is \<open>both\<close>; with any other hide-mode it is returned unchanged.
\<close>

theorem visibility_filtering:
  assumes "root_loop root initial_state = Inr st"
    and "parse_kdenlive_project root = Inr (chs, pls)"
    and "map_of (playlists st) pid = Some p"
    and "map_of (playlist_hide_status st) pid = Some h"
  shows "(map_of pls pid = None \<longleftrightarrow> h = ''both'') \<and>
         (h \<noteq> ''both'' \<longrightarrow> map_of pls pid = Some p)"
proof -
  from parse_Inr[OF assms(2)] assms(1) obtain ms where
    m: "muted_loop (map fst (playlists st)) (playlist_hide_status st) [] = Inr ms" and
    pls: "pls = fold AList.delete ms (playlists st)" by auto
  have "pid \<in> set (map fst (playlists st))"
    using assms(3) by (metis map_of_eq_None_iff option.distinct(1) set_map)
  then have "pid \<in> set ms \<longleftrightarrow> h = ''both''"
    using muted_loop_Inr[OF m] assms(4) by auto
  then show ?thesis using assms(3) unfolding pls map_of_fold_delete by simp
qed

theorem visibility_filtering_witness:
  "map_of [(''playlist1'', playlist_init ''playlist1'' [Entry ''chain0'' 0 1000000])]
     ''playlist0'' = None \<and>
   map_of [(''playlist1'', playlist_init ''playlist1'' [Entry ''chain0'' 0 1000000])]
     ''playlist1'' = Some (playlist_init ''playlist1'' [Entry ''chain0'' 0 1000000]) \<and>
   parse_kdenlive_project
     [Chain ''chain0'' [Property ''resource'' ''a.mp4''],
      Playlist ''main_bin'' [Entry ''chain0'' 0 5000000],
      Playlist ''playlist0'' [Entry ''chain0'' 0 5000000],
      Playlist ''playlist1'' [Entry ''chain0'' 0 1000000],
      Playlist ''playlist2'' [Blank 1000000],
      Tractor [Track ''playlist0'' (Some ''both''), Track ''playlist1'' (Some ''video'')]] =
   Inr ([(''chain0'', ''a.mp4'')],
        [(''playlist1'', playlist_init ''playlist1'' [Entry ''chain0'' 0 1000000])])"
proof -
  note v = visibility_filtering[OF example_walk example_parse]
  have a: "map_of [(''playlist1'', playlist_init ''playlist1'' [Entry ''chain0'' 0 1000000])]
     ''playlist0'' = None"
    using v[of "''playlist0''" "playlist_init ''playlist0'' [Entry ''chain0'' 0 5000000]" "''both''"]
    by simp
  have b: "map_of [(''playlist1'', playlist_init ''playlist1'' [Entry ''chain0'' 0 1000000])]
     ''playlist1'' = Some (playlist_init ''playlist1'' [Entry ''chain0'' 0 1000000])"
    using v[of "''playlist1''" "playlist_init ''playlist1'' [Entry ''chain0'' 0 1000000]" "''video''"]
    by simp
  show ?thesis using a b example_parse by blast
qed

text \<open>
  Claim C9. When the document holds a valid track (a playlist element that is not the
  asset bin and has a recognised clip entry) and no \<open>track\<close> element of a tractor
  declares a hide-mode for its identifier, project loading fails; once the walk over
  the document has gone through, it fails with \<open>KeyError\<close> on an identifier that has
  no entry in \<open>playlist_hide_status\<close>.
\<close>

theorem missing_declaration_fatal:
  assumes "Playlist pid evs \<in> set root"
    and "is_valid (playlist_init pid evs)"
    and "\<forall>trs h. Tractor trs \<in> set root \<longrightarrow> Track pid (Some h) \<notin> set trs"
  shows "(\<exists>err. parse_kdenlive_project root = Inl err) \<and>
         (\<forall>st. root_loop root initial_state = Inr st \<longrightarrow>
            (\<exists>k. parse_kdenlive_project root = Inl (KeyError k) \<and>
                 k \<in> fst ` set (playlists st) \<and>
                 map_of (playlist_hide_status st) k = None))"
proof -
  have w: "\<exists>k. parse_kdenlive_project root = Inl (KeyError k) \<and>
                 k \<in> fst ` set (playlists st) \<and>
                 map_of (playlist_hide_status st) k = None"
    if st: "root_loop root initial_state = Inr st" for st
  proof -
    have key: "pid \<in> set (map fst (playlists st))"
      using root_loop_valid_kept[OF st assms(1,2)] by simp
    have none: "map_of (playlist_hide_status st) pid = None"
    proof (rule ccontr)
      assume "map_of (playlist_hide_status st) pid \<noteq> None"
      then obtain h where "map_of (playlist_hide_status st) pid = Some h" by blast
      from root_loop_declared[OF st this] show False
        using assms(3) by (auto simp: initial_state_def)
    qed
    from muted_loop_missing[OF key none, of "[]"] obtain k where
      "k \<in> set (map fst (playlists st))"
      "muted_loop (map fst (playlists st)) (playlist_hide_status st) [] = Inl (KeyError k)"
      "map_of (playlist_hide_status st) k = None" by blast
    then show ?thesis using st by (auto simp: parse_kdenlive_project_def)
  qed
  have "\<exists>err. parse_kdenlive_project root = Inl err"
  proof (cases "root_loop root initial_state")
    case (Inl err)
    then show ?thesis by (simp add: parse_kdenlive_project_def)
  next
    case (Inr st)
    from w[OF this] show ?thesis by blast
  qed
  then show ?thesis using w by blast
qed

theorem missing_declaration_fatal_witness:
  "parse_kdenlive_project
     [Chain ''chain0'' [Property ''resource'' ''a.mp4''],
      Playlist ''playlist0'' [Entry ''chain0'' 0 5000000],
      Playlist ''playlist1'' [Entry ''chain0'' 0 1000000],
      Tractor [Track ''playlist0'' (Some ''video''), Track ''playlist1'' None]] =
   Inl (KeyError ''playlist1'')"
proof -
  let ?root = "[Chain ''chain0'' [Property ''resource'' ''a.mp4''],
      Playlist ''playlist0'' [Entry ''chain0'' 0 5000000],
      Playlist ''playlist1'' [Entry ''chain0'' 0 1000000],
      Tractor [Track ''playlist0'' (Some ''video''), Track ''playlist1'' None]]"
  have m: "Playlist ''playlist1'' [Entry ''chain0'' 0 1000000] \<in> set ?root" by simp
  have v: "is_valid (playlist_init ''playlist1'' [Entry ''chain0'' 0 1000000])"
    by (simp add: is_valid_playlist_init startswith_def)
  have n: "\<forall>trs h. Tractor trs \<in> set ?root \<longrightarrow> Track ''playlist1'' (Some h) \<notin> set trs"
    by simp
  from missing_declaration_fatal[OF m v n] example_walk_undeclared
  obtain k where k: "parse_kdenlive_project ?root = Inl (KeyError k)"
    "k \<in> fst ` set [(''playlist0'', playlist_init ''playlist0'' [Entry ''chain0'' 0 5000000]),
           (''playlist1'', playlist_init ''playlist1'' [Entry ''chain0'' 0 1000000])]"
    "map_of [(''playlist0'', ''video'')] k = None"
    by fastforce
  from k(2,3) have "k = ''playlist1''" by (auto split: if_splits)
  then show ?thesis using k(1) by simp
qed

text \<open>
  Claim C10. For a track built by the constructor with a non-empty timeline and a window
  whose start \<open>s\<close> is before the first placed clip's \<open>timeline_in\<close>, the query does not
  raise: its first result is the last placed clip, followed by every placed clip with
  \<open>timeline_in < e\<close> from position 0 on. When the last clip's \<open>timeline_in\<close> is before
  \<open>e\<close>, the result is the last clip followed by the whole timeline, so the last clip
  stands both at the head and at the end of the result.
\<close>

theorem wraparound_duplication:
  assumes "timeline (playlist_init pid evs) \<noteq> []"
    and "s < timeline_in (hd (timeline (playlist_init pid evs)))"
  shows "seek_chains (playlist_init pid evs) s e =
           Inr (last (timeline (playlist_init pid evs)) #
                filter (\<lambda>t. timeline_in t < e) (timeline (playlist_init pid evs))) \<and>
         (timeline_in (last (timeline (playlist_init pid evs))) < e \<longrightarrow>
            seek_chains (playlist_init pid evs) s e =
              Inr (last (timeline (playlist_init pid evs)) # timeline (playlist_init pid evs)))"
proof -
  note w = seek_chains_wraparound[OF sorted_timeline_playlist_init assms, of e]
  have "filter (\<lambda>t. timeline_in t < e) (timeline (playlist_init pid evs)) =
        timeline (playlist_init pid evs)"
    if "timeline_in (last (timeline (playlist_init pid evs))) < e"
    using sorted_timeline_playlist_init that by (rule filter_all_below_last)
  then show ?thesis using w by simp
qed

theorem wraparound_duplication_witness:
  "seek_chains (playlist_init ''playlist0''
     [Blank 2000000, Entry ''chain0'' 0 5000000, Entry ''chain1'' 1000000 3000000])
     1000000 8000000 =
   Inr [\<lparr>chain_id = ''chain1'', timeline_in = 7000000, chain_in = 1000000, chain_out = 3000000\<rparr>,
        \<lparr>chain_id = ''chain0'', timeline_in = 2000000, chain_in = 0, chain_out = 5000000\<rparr>,
        \<lparr>chain_id = ''chain1'', timeline_in = 7000000, chain_in = 1000000, chain_out = 3000000\<rparr>]"
proof -
  let ?p = "playlist_init ''playlist0''
     [Blank 2000000, Entry ''chain0'' 0 5000000, Entry ''chain1'' 1000000 3000000]"
  have n: "timeline ?p \<noteq> []" unfolding example_timeline by simp
  have b: "1000000 < timeline_in (hd (timeline ?p))" unfolding example_timeline by simp
  have l: "timeline_in (last (timeline ?p)) < 8000000" unfolding example_timeline by simp
  show ?thesis
    using wraparound_duplication[OF n b, of 8000000] l unfolding example_timeline by simp
qed

end
